theory Spec2Isabelle
  imports Complex_Main "HOL-Library.Product_Lexorder"
begin

section \<open>Data model\<close>

text \<open>
  The program passes time intervals around as Python tuples \<open>(start, end)\<close> of seconds.
  A tuple is a pair here and a second is a \<^typ>\<open>real\<close>: comparisons, \<open>max\<close>, sums and
  differences are the exact ones. Python's \<open>sorted\<close> on a list of tuples is the
  lexicographic order on pairs, which is the order of \<open>HOL-Library.Product_Lexorder\<close>.
\<close>

type_synonym segment = "real \<times> real"

text \<open>Each interval has \<open>start \<le> end\<close>.\<close>

definition well_formed :: "segment list \<Rightarrow> bool" where
  "well_formed xs = list_all (\<lambda>x. fst x \<le> snd x) xs"

text \<open>
  The invariant of a keep-segment list: ascending by start, and every segment ends no later
  than each later segment starts (touching segments are legal).
\<close>

definition keep_invariant :: "segment list \<Rightarrow> bool" where
  "keep_invariant xs = sorted_wrt (\<lambda>a b. fst a \<le> fst b \<and> snd a \<le> fst b) xs"

text \<open>The time points a list of intervals covers, closed and half-open.\<close>

definition covered :: "segment list \<Rightarrow> real set" where
  "covered xs = (\<Union>x\<in>set xs. {fst x .. snd x})"

definition covered_ho :: "segment list \<Rightarrow> real set" where
  "covered_ho xs = (\<Union>x\<in>set xs. {fst x ..< snd x})"

section \<open>processor.py: the segment reconciler\<close>

subsection \<open>\<open>VideoProcessor._invert_segments\<close>\<close>

text \<open>
  The body of the \<open>for start, end in sorted(silence_segments)\<close> loop, on the loop's state
  \<open>(last_end, keep_segments)\<close>.
\<close>

definition invert_step :: "segment \<Rightarrow> real \<times> segment list \<Rightarrow> real \<times> segment list" where
  "invert_step seg st =
     (case seg of (start, e) \<Rightarrow>
        (case st of (last_end, keep_segments) \<Rightarrow>
           (e, if start > last_end then keep_segments @ [(last_end, start)]
               else keep_segments)))"

definition invert_segments :: "segment list \<Rightarrow> real \<Rightarrow> segment list" where
  "invert_segments silence_segments total_duration =
     (if silence_segments = [] then [(0, total_duration)]
      else (case fold invert_step (sort silence_segments) (0, []) of
              (last_end, keep_segments) \<Rightarrow>
                if last_end < total_duration
                then keep_segments @ [(last_end, total_duration)]
                else keep_segments))"

subsection \<open>\<open>VideoProcessor._merge_segments\<close>\<close>

text \<open>The inner loop over the silence intervals, with its \<open>break\<close> at the first overlap.\<close>

fun overlaps_silence :: "real \<Rightarrow> real \<Rightarrow> segment list \<Rightarrow> bool" where
  "overlaps_silence speech_start speech_end [] = False"
| "overlaps_silence speech_start speech_end ((silence_start, silence_end) # rest) =
     (if \<not> (speech_end < silence_start \<or> speech_start > silence_end) then True
      else overlaps_silence speech_start speech_end rest)"

definition merge_step :: "segment list \<Rightarrow> segment \<Rightarrow> segment list \<Rightarrow> segment list" where
  "merge_step silence_segments seg keep_segments =
     (case seg of (speech_start, speech_end) \<Rightarrow>
        if \<not> overlaps_silence speech_start speech_end silence_segments
        then keep_segments @ [(speech_start, speech_end)]
        else keep_segments)"

definition merge_segments :: "segment list \<Rightarrow> segment list \<Rightarrow> segment list" where
  "merge_segments speech_segments silence_segments =
     fold (merge_step silence_segments) speech_segments []"

text \<open>
  The overlap test in the words of the specification: a speech interval and a silence
  interval overlap unless the speech ends before the silence starts or starts after the
  silence ends.
\<close>

definition overlap :: "segment \<Rightarrow> segment \<Rightarrow> bool" where
  "overlap speech silence = (\<not> (snd speech < fst silence \<or> fst speech > snd silence))"

subsection \<open>\<open>VideoProcessor._get_duration\<close>, \<open>_detect_keep_segments\<close>, \<open>_count_removed_segments\<close>\<close>

text \<open>
  \<open>video_info\<close> is what ffprobe answered: \<open>Some d\<close> for a \<open>format\<close> entry with duration
  \<open>d\<close>, \<open>None\<close> when there is no \<open>format\<close> entry (a \<open>format\<close> entry without a duration
  reads as \<open>Some 0\<close>).
\<close>

definition get_duration :: "real option \<Rightarrow> real" where
  "get_duration video_info = (case video_info of Some d \<Rightarrow> d | None \<Rightarrow> 0)"

text \<open>
  The detectors are external programs; the reconciler receives their answers:
  \<open>silence_segments\<close> is what \<open>FFmpegHandler.detect_silence\<close> returned and
  \<open>speech_segments\<close> what \<open>WhisperHandler.detect_speech_from_video\<close> returned.
\<close>

definition detect_keep_segments ::
    "string \<Rightarrow> segment list \<Rightarrow> segment list \<Rightarrow> real option \<Rightarrow> segment list" where
  "detect_keep_segments mode silence_segments speech_segments video_info =
     (if mode = ''ffmpeg''
        then invert_segments silence_segments (get_duration video_info)
      else if mode = ''whisper'' then speech_segments
      else if mode = ''hybrid'' then merge_segments speech_segments silence_segments
      else [])"

definition count_removed_segments :: "segment list \<Rightarrow> real \<Rightarrow> int" where
  "count_removed_segments keep_segments total_duration =
     (if keep_segments = [] then 0 else int (length keep_segments) - 1)"

subsection \<open>\<open>VideoProcessor.generate_timestamp_report\<close>\<close>

datatype action = KEPT | REMOVED

text \<open>
  A row of the report, with the label \<open>Cut N\<close> or \<open>Clip N\<close> as its word and its number.
  The three time fields hold the numbers the source hands to \<open>_format_duration\<close> when it
  writes the row.
\<close>

record row =
  row_label :: string
  row_number :: nat
  row_start :: real
  row_end :: real
  row_duration :: real
  row_action :: action

definition report_step :: "segment \<Rightarrow> nat \<times> real \<times> row list \<Rightarrow> nat \<times> real \<times> row list" where
  "report_step seg st =
     (case seg of (start, e) \<Rightarrow>
        (case st of (segment_num, last_end, rows) \<Rightarrow>
           (case (if start > last_end
                  then (segment_num + 1,
                        rows @ [\<lparr>row_label = ''Cut'', row_number = segment_num,
                                  row_start = last_end, row_end = start,
                                  row_duration = start - last_end, row_action = REMOVED\<rparr>])
                  else (segment_num, rows)) of
              (n, rows1) \<Rightarrow>
                (n + 1, e,
                 rows1 @ [\<lparr>row_label = ''Clip'', row_number = n,
                            row_start = start, row_end = e,
                            row_duration = e - start, row_action = KEPT\<rparr>]))))"

text \<open>The rows written after the header, in order.\<close>

definition generate_timestamp_report :: "segment list \<Rightarrow> real \<Rightarrow> row list" where
  "generate_timestamp_report segments total_duration =
     (case fold report_step (sort segments) (1, 0, []) of
        (segment_num, last_end, rows) \<Rightarrow>
          if last_end < total_duration
          then rows @ [\<lparr>row_label = ''Cut'', row_number = segment_num,
                         row_start = last_end, row_end = total_duration,
                         row_duration = total_duration - last_end, row_action = REMOVED\<rparr>]
          else rows)"

text \<open>
  \<open>_format_duration\<close>: the hours, minutes and seconds printed as \<open>HH:MM:SS\<close>, by floor
  division and remainder.
\<close>

definition format_duration :: "real \<Rightarrow> int \<times> int \<times> int" where
  "format_duration seconds =
     (\<lfloor>seconds / 3600\<rfloor>,
      \<lfloor>(seconds - 3600 * of_int \<lfloor>seconds / 3600\<rfloor>) / 60\<rfloor>,
      \<lfloor>seconds - 60 * of_int \<lfloor>seconds / 60\<rfloor>\<rfloor>)"

section \<open>whisper_handler.py: the speech adapter\<close>

text \<open>
  A raw transcription segment is a dict with a \<open>start\<close> and an \<open>end\<close>: a pair. The
  transcription is \<open>Some raw\<close> when it has a \<open>segments\<close> entry \<open>raw\<close>, and \<open>None\<close> when it
  is empty or has no such entry. The loop's state is \<open>(current, segments)\<close>, where
  \<open>current\<close> is \<open>None\<close> as long as \<open>current_start\<close> is.
\<close>

definition speech_step ::
    "real \<Rightarrow> segment \<Rightarrow> segment option \<times> segment list \<Rightarrow> segment option \<times> segment list" where
  "speech_step min_gap seg st =
     (case seg of (start, e) \<Rightarrow>
        (case st of (current, segments) \<Rightarrow>
           (case current of
              None \<Rightarrow> (Some (start, e), segments)
            | Some (current_start, current_end) \<Rightarrow>
                if start - current_end \<le> min_gap
                then (Some (current_start, e), segments)
                else (Some (start, e), segments @ [(current_start, current_end)]))))"

definition get_speech_segments :: "segment list option \<Rightarrow> real \<Rightarrow> segment list" where
  "get_speech_segments transcription min_gap =
     (case transcription of
        None \<Rightarrow> []
      | Some raw \<Rightarrow>
          (case fold (speech_step min_gap) raw (None, []) of
             (current, segments) \<Rightarrow>
               (case current of None \<Rightarrow> segments | Some c \<Rightarrow> segments @ [c])))"

text \<open>
  \<open>detect_speech_from_video\<close>: \<open>audio_extracted\<close> is whether \<open>extract_audio\<close> succeeded,
  \<open>transcription\<close> is \<open>None\<close> when \<open>transcribe_audio\<close> returned nothing.
\<close>

definition detect_speech_from_video ::
    "bool \<Rightarrow> segment list option option \<Rightarrow> real \<Rightarrow> segment list" where
  "detect_speech_from_video audio_extracted transcription min_gap =
     (if \<not> audio_extracted then []
      else (case transcription of
              None \<Rightarrow> []
            | Some t \<Rightarrow> get_speech_segments t min_gap))"

section \<open>ffmpeg_handler.py: the cut planner\<close>

text \<open>
  One entry of \<open>filter_parts\<close> in \<open>cut_video\<close>: the \<open>trim\<close>/\<open>atrim\<close> pair of segment \<open>i\<close>
  with its padded start and end.
\<close>

record trim =
  trim_index :: nat
  trim_start :: real
  trim_end :: real

definition filter_part :: "real \<Rightarrow> nat \<times> segment \<Rightarrow> trim" where
  "filter_part padding x =
     (case x of (i, (start, e)) \<Rightarrow>
        (let padded_start = max 0 (start - padding);
             padded_end = e + padding
         in \<lparr>trim_index = i, trim_start = padded_start, trim_end = padded_end\<rparr>))"

definition filter_parts :: "segment list \<Rightarrow> real \<Rightarrow> trim list" where
  "filter_parts keep_segments padding =
     fold (\<lambda>x parts. parts @ [filter_part padding x]) (enumerate 0 keep_segments) []"

text \<open>
  \<open>cut_video\<close> returns whether it succeeded; the model also returns the filter graphs it
  handed to the transcoder. \<open>run\<close> is the transcoder: its return code, or \<open>None\<close> when
  starting it raised.
\<close>

definition cut_video ::
    "segment list \<Rightarrow> real \<Rightarrow> (trim list \<Rightarrow> int option) \<Rightarrow> bool \<times> trim list list" where
  "cut_video keep_segments padding run =
     (if keep_segments = [] then (False, [])
      else (let parts = filter_parts keep_segments padding in
              (case run parts of
                 None \<Rightarrow> (False, [parts])
               | Some returncode \<Rightarrow> (returncode = 0, [parts]))))"

text \<open>
  One command of \<open>export_clips\<close>: clip number \<open>i\<close> (counted from 1), \<open>-ss padded_start\<close>
  and \<open>-t duration\<close>.
\<close>

record clip =
  clip_number :: nat
  clip_ss :: real
  clip_t :: real

definition clip_command :: "real \<Rightarrow> nat \<times> segment \<Rightarrow> clip" where
  "clip_command padding x =
     (case x of (i, (start, e)) \<Rightarrow>
        (let padded_start = max 0 (start - padding);
             duration = (e + padding) - padded_start
         in \<lparr>clip_number = i, clip_ss = padded_start, clip_t = duration\<rparr>))"

text \<open>
  \<open>export_clips\<close> returns the files it created (by clip number); the model also returns
  the commands it ran. \<open>run\<close> tells whether the transcoder succeeded on a command; a
  failure is caught and the loop goes on.
\<close>

definition export_step ::
    "real \<Rightarrow> (clip \<Rightarrow> bool) \<Rightarrow> nat \<times> segment \<Rightarrow> nat list \<times> clip list \<Rightarrow> nat list \<times> clip list" where
  "export_step padding run x st =
     (case st of (output_files, commands) \<Rightarrow>
        (let cmd = clip_command padding x
         in (if run cmd then output_files @ [fst x] else output_files, commands @ [cmd])))"

definition export_clips ::
    "segment list \<Rightarrow> real \<Rightarrow> (clip \<Rightarrow> bool) \<Rightarrow> nat list \<times> clip list" where
  "export_clips segments padding run =
     fold (export_step padding run) (enumerate 1 segments) ([], [])"

section \<open>processor.py: \<open>VideoProcessor.process_video\<close>\<close>

record config =
  processing_mode :: string
  export_merged :: bool
  export_clip_files :: bool
  export_timestamps :: bool
  export_xml :: bool
  padding_seconds :: real

text \<open>
  What one run meets outside the program: the detectors' answers, whether \<open>cancel\<close> was
  called before each of the two checks, the transcoder, and whether the two report files
  could be written.
\<close>

record world =
  video_info :: "real option"
  silence_found :: "segment list"
  speech_found :: "segment list"
  cancelled_after_detection :: bool
  cancelled_after_merge :: bool
  run_cut :: "trim list \<Rightarrow> int option"
  run_clip :: "clip \<Rightarrow> bool"
  report_written :: bool
  xml_written :: bool

datatype output_file = Edited_video | Clip_file nat | Timestamps_csv | Premiere_xml

record results =
  success :: bool
  output_files :: "output_file list"
  original_duration :: real
  final_duration :: real
  segments_removed :: int
  time_saved :: real
  error :: "string option"

text \<open>
  The run returns its \<open>results\<close>; the model adds the cut commands and the clip commands
  handed to the transcoder. ffprobe is asked twice, for \<open>original_duration\<close> and by
  \<open>_get_duration\<close>, and answers \<open>video_info\<close> both times. An exception of the file system
  or of the progress callback, which the source turns into an \<open>error\<close> entry, is not part of
  the model.
\<close>

definition process_video :: "config \<Rightarrow> world \<Rightarrow> results \<times> trim list list \<times> clip list" where
  "process_video cfg w =
     (let r0 = \<lparr>success = False, output_files = [],
                 original_duration = get_duration (video_info w),
                 final_duration = 0, segments_removed = 0, time_saved = 0, error = None\<rparr>;
          keep_segments = detect_keep_segments (processing_mode cfg) (silence_found w)
                            (speech_found w) (video_info w)
      in if cancelled_after_detection w
           then (r0\<lparr>error := Some ''Processing cancelled by user''\<rparr>, [], [])
         else if keep_segments = []
           then (r0\<lparr>error := Some ''No segments to keep''\<rparr>, [], [])
         else
           (let fin = sum_list (map (\<lambda>(start, e). e - start) keep_segments);
                r1 = r0\<lparr>final_duration := fin,
                        time_saved := original_duration r0 - fin,
                        segments_removed :=
                          count_removed_segments keep_segments (original_duration r0)\<rparr>;
                cut = (if export_merged cfg
                       then cut_video keep_segments (padding_seconds cfg) (run_cut w)
                       else (False, []));
                r2 = (if fst cut then r1\<lparr>output_files := output_files r1 @ [Edited_video]\<rparr>
                      else r1)
            in if cancelled_after_merge w
                 then (r2\<lparr>error := Some ''Processing cancelled by user''\<rparr>, snd cut, [])
               else
                 (let clips = (if export_clip_files cfg
                               then export_clips keep_segments (padding_seconds cfg) (run_clip w)
                               else ([], []));
                      r3 = r2\<lparr>output_files := output_files r2 @ map Clip_file (fst clips)\<rparr>;
                      r4 = (if export_timestamps cfg \<and> report_written w
                            then r3\<lparr>output_files := output_files r3 @ [Timestamps_csv]\<rparr>
                            else r3);
                      r5 = (if export_xml cfg \<and> xml_written w
                            then r4\<lparr>output_files := output_files r4 @ [Premiere_xml]\<rparr>
                            else r4)
                  in (r5\<lparr>success := True\<rparr>, snd cut, snd clips))))"

section \<open>Auxiliary functions\<close>

text \<open>
  The inversion walk as a recursion: \<open>gaps last_end xs\<close> are the keep segments the loop
  emits on the intervals \<open>xs\<close> when it starts from \<open>last_end\<close>, \<open>walk_end last_end xs\<close> is
  the value of \<open>last_end\<close> when the loop is over, and \<open>tail_segment\<close> is the final segment,
  if there is one.
\<close>

fun gaps :: "real \<Rightarrow> segment list \<Rightarrow> segment list" where
  "gaps last_end [] = []"
| "gaps last_end ((start, e) # rest) =
     (if start > last_end then (last_end, start) # gaps e rest else gaps e rest)"

definition walk_end :: "real \<Rightarrow> segment list \<Rightarrow> real" where
  "walk_end last_end xs = (if xs = [] then last_end else snd (last xs))"

definition tail_segment :: "real \<Rightarrow> real \<Rightarrow> segment list" where
  "tail_segment last_end total_duration =
     (if last_end < total_duration then [(last_end, total_duration)] else [])"

text \<open>
  The gap-bridging loop as a recursion: \<open>bridge min_gap current_start current_end xs\<close> is
  the list \<open>get_speech_segments\<close> returns from the moment it holds the current interval and
  has the raw segments \<open>xs\<close> left to read.
\<close>

fun bridge :: "real \<Rightarrow> real \<Rightarrow> real \<Rightarrow> segment list \<Rightarrow> segment list" where
  "bridge min_gap current_start current_end [] = [(current_start, current_end)]"
| "bridge min_gap current_start current_end ((start, e) # rest) =
     (if start - current_end \<le> min_gap then bridge min_gap current_start e rest
      else (current_start, current_end) # bridge min_gap start e rest)"

text \<open>An interval contains another: it starts no later and ends no earlier.\<close>

definition contains :: "segment \<Rightarrow> segment \<Rightarrow> bool" where
  "contains outer inner = (fst outer \<le> fst inner \<and> snd inner \<le> snd outer)"

text \<open>
  The report loop as a recursion: \<open>timeline n last_end xs total_duration\<close> are the rows
  written from the moment the counter is \<open>n\<close>, the walk is at \<open>last_end\<close> and the segments
  \<open>xs\<close> are left, the final cut included. \<open>cut_row\<close> and \<open>clip_row\<close> are the two kinds of
  row.
\<close>

definition cut_row :: "nat \<Rightarrow> real \<Rightarrow> real \<Rightarrow> row" where
  "cut_row n a b = \<lparr>row_label = ''Cut'', row_number = n, row_start = a, row_end = b,
                     row_duration = b - a, row_action = REMOVED\<rparr>"

definition clip_row :: "nat \<Rightarrow> real \<Rightarrow> real \<Rightarrow> row" where
  "clip_row n a b = \<lparr>row_label = ''Clip'', row_number = n, row_start = a, row_end = b,
                      row_duration = b - a, row_action = KEPT\<rparr>"

fun timeline :: "nat \<Rightarrow> real \<Rightarrow> segment list \<Rightarrow> real \<Rightarrow> row list" where
  "timeline n last_end [] total_duration =
     (if last_end < total_duration then [cut_row n last_end total_duration] else [])"
| "timeline n last_end ((start, e) # rest) total_duration =
     (if start > last_end
      then cut_row n last_end start # clip_row (n + 1) start e # timeline (n + 2) e rest total_duration
      else clip_row n start e # timeline (n + 1) e rest total_duration)"

text \<open>
  Rows partition \<open>[a, b]\<close>: the first starts at \<open>a\<close>, each row starts where the one before
  it ends, no row ends before it starts, and the last ends at \<open>b\<close>.
\<close>

fun contiguous :: "real \<Rightarrow> real \<Rightarrow> row list \<Rightarrow> bool" where
  "contiguous a b [] = (a = b)"
| "contiguous a b (r # rs) = (row_start r = a \<and> row_start r \<le> row_end r \<and> contiguous (row_end r) b rs)"

text \<open>Consecutive rows differ in their action; no two consecutive rows are cuts.\<close>

definition alternating :: "row list \<Rightarrow> bool" where
  "alternating rows = successively (\<lambda>r r'. row_action r \<noteq> row_action r') rows"

definition no_adjacent_removed :: "row list \<Rightarrow> bool" where
  "no_adjacent_removed rows =
     successively (\<lambda>r r'. \<not> (row_action r = REMOVED \<and> row_action r' = REMOVED)) rows"

text \<open>The sum of the durations of the \<open>KEPT\<close> rows.\<close>

definition kept_durations :: "row list \<Rightarrow> real" where
  "kept_durations rows = sum_list (map row_duration (filter (\<lambda>r. row_action r = KEPT) rows))"

text \<open>
  A configuration and a run to evaluate \<open>process_video\<close> on: silence-only mode, every
  export but the XML, padding of half a second, a transcoder that succeeds, no
  cancellation.
\<close>

definition demo_config :: config where
  "demo_config = \<lparr>processing_mode = ''ffmpeg'', export_merged = True, export_clip_files = True,
     export_timestamps = True, export_xml = False, padding_seconds = 1 / 2\<rparr>"

definition demo_world :: "segment list \<Rightarrow> real \<Rightarrow> world" where
  "demo_world silence d = \<lparr>video_info = Some d, silence_found = silence, speech_found = [],
     cancelled_after_detection = False, cancelled_after_merge = False,
     run_cut = (\<lambda>c. Some 0), run_clip = (\<lambda>c. True),
     report_written = True, xml_written = True\<rparr>"

section \<open>The combined policy\<close>

lemma overlaps_silence_iff:
  "overlaps_silence a b sil = (\<exists>v\<in>set sil. overlap (a, b) v)"
  by (induction sil) (auto simp: overlap_def)

lemma fold_merge_step:
  "fold (merge_step sil) sp acc =
     acc @ filter (\<lambda>s. \<not> (\<exists>v\<in>set sil. overlap s v)) sp"
  by (induction sp arbitrary: acc)
     (auto simp: merge_step_def overlaps_silence_iff split: prod.splits)

text \<open>
  C2. In hybrid mode the result is exactly the subsequence of the speech intervals, in
  their original order, that overlap no silence interval under the touching-inclusive
  test; an interval that overlaps some silence interval is dropped whole, and a kept one
  is returned unchanged.
\<close>

theorem merge_segments_is_filter:
  "detect_keep_segments ''hybrid'' silence speech vi = merge_segments speech silence
   \<and> merge_segments speech silence =
       filter (\<lambda>s. \<not> (\<exists>v\<in>set silence. overlap s v)) speech"
  by (simp add: detect_keep_segments_def merge_segments_def fold_merge_step)

theorem merge_segments_is_filter_witness:
  "detect_keep_segments ''hybrid'' [(18, 27)] [(5, 20), (25, 45)] (Some 60) = []
   \<and> merge_segments [(0, 5), (6, 9), (11, 12)] [(5, 11 / 2), (12, 13)] = [(6, 9)]"
  using merge_segments_is_filter [of "[(18, 27)]" "[(5, 20), (25, 45)]" "Some 60"]
        merge_segments_is_filter [of "[(5, 11 / 2), (12, 13)]" "[(0, 5), (6, 9), (11, 12)]" None]
  by (simp add: overlap_def)

section \<open>The inversion walk\<close>

subsection \<open>The loop and the order of its keep segments\<close>

lemma fold_invert_step:
  "fold invert_step xs (l, keep) = (walk_end l xs, keep @ gaps l xs)"
  by (induction xs arbitrary: l keep) (auto simp: invert_step_def walk_end_def)

lemma invert_segments_gaps:
  "invert_segments sil D =
     (if sil = [] then [(0, D)]
      else gaps 0 (sort sil) @
           (if walk_end 0 (sort sil) < D then [(walk_end 0 (sort sil), D)] else []))"
  by (simp add: invert_segments_def fold_invert_step)

lemma sorted_map_fst: "sorted (xs :: segment list) \<Longrightarrow> sorted (map fst xs)"
  by (induction xs) (auto simp: less_eq_prod_def)

lemma gaps_inv:
  "sorted (map fst xs) \<Longrightarrow> well_formed xs \<Longrightarrow> b \<le> l \<Longrightarrow> \<forall>x\<in>set xs. b \<le> fst x \<Longrightarrow>
   keep_invariant (gaps l xs) \<and> (\<forall>k\<in>set (gaps l xs). b \<le> fst k \<and> fst k \<le> walk_end l xs \<and> snd k \<le> walk_end l xs)"
proof (induction xs arbitrary: b l)
  case Nil
  then show ?case by (simp add: keep_invariant_def)
next
  case (Cons x xs)
  obtain s e where x: "x = (s, e)" by (cases x)
  from Cons.prems x have se: "s \<le> e" and bs: "b \<le> s" by (auto simp: well_formed_def)
  have ih: "keep_invariant (gaps e xs) \<and> (\<forall>k\<in>set (gaps e xs). s \<le> fst k \<and> fst k \<le> walk_end e xs \<and> snd k \<le> walk_end e xs)"
    using Cons.prems x se by (intro Cons.IH) (auto simp: well_formed_def)
  have we: "s \<le> walk_end e xs"
    using Cons.prems x se by (auto simp: walk_end_def well_formed_def list_all_iff) (metis last_in_set order_trans)
  have weq: "walk_end l (x # xs) = walk_end e xs"
    using x by (auto simp: walk_end_def)
  show ?case
    using ih we bs x weq \<open>b \<le> l\<close> by (auto simp: keep_invariant_def)
qed

lemma keep_invariant_snoc:
  "keep_invariant xs \<Longrightarrow> \<forall>k\<in>set xs. fst k \<le> a \<and> snd k \<le> a \<Longrightarrow> keep_invariant (xs @ [(a, b)])"
  by (auto simp: keep_invariant_def sorted_wrt_append)

lemma invert_keep:
  "well_formed sil \<Longrightarrow> keep_invariant (invert_segments sil D)"
proof (cases "sil = []")
  case True
  then show ?thesis by (simp add: invert_segments_def keep_invariant_def)
next
  case False
  assume wf: "well_formed sil"
  let ?xs = "sort sil"
  define b where "b = min 0 (Min (fst ` set ?xs))"
  have 1: "sorted (map fst ?xs)" by (rule sorted_map_fst) simp
  have 2: "well_formed ?xs" using wf by (simp add: well_formed_def list_all_iff)
  have 3: "b \<le> 0" by (simp add: b_def)
  have 4: "\<forall>x\<in>set ?xs. b \<le> fst x" by (auto simp: b_def min_le_iff_disj)
  from gaps_inv [OF 1 2 3 4]
  have inv: "keep_invariant (gaps 0 ?xs)"
    and bnd: "\<forall>k\<in>set (gaps 0 ?xs). fst k \<le> walk_end 0 ?xs \<and> snd k \<le> walk_end 0 ?xs"
    by auto
  show ?thesis
    using False inv keep_invariant_snoc [OF inv bnd]
    by (simp add: invert_segments_gaps)
qed

subsection \<open>Coverage\<close>

lemma covered_ho_simps:
  "covered_ho [] = {}" "covered_ho (x # xs) = {fst x ..< snd x} \<union> covered_ho xs"
  "covered_ho (xs @ ys) = covered_ho xs \<union> covered_ho ys"
  by (auto simp: covered_ho_def)

lemma covered_simps:
  "covered [] = {}" "covered (x # xs) = {fst x .. snd x} \<union> covered xs"
  "covered (xs @ ys) = covered xs \<union> covered ys"
  by (auto simp: covered_def)

lemma walk_end_Cons: "walk_end l ((s, e) # xs) = walk_end e xs"
  by (simp add: walk_end_def)

lemma gaps_Cons_app: "gaps l ((s, e) # xs) = tail_segment l s @ gaps e xs"
  by (simp add: tail_segment_def)

lemma ho_partition:
  "sorted_wrt (\<lambda>a b. snd a \<le> fst b) xs \<Longrightarrow>
   \<forall>x\<in>set xs. l \<le> fst x \<and> fst x \<le> snd x \<and> snd x \<le> D \<Longrightarrow> l \<le> D \<Longrightarrow>
   covered_ho (gaps l xs @ tail_segment (walk_end l xs) D) \<union> covered_ho xs = {l..<D}
   \<and> covered_ho (gaps l xs @ tail_segment (walk_end l xs) D) \<inter> covered_ho xs = {}"
proof (induction xs arbitrary: l)
  case Nil
  then show ?case by (auto simp: covered_ho_simps walk_end_def tail_segment_def)
next
  case (Cons x xs)
  obtain s e where x: "x = (s, e)" by (cases x)
  let ?K = "covered_ho (gaps e xs @ tail_segment (walk_end e xs) D)"
  from Cons.prems x have b: "l \<le> s" "s \<le> e" "e \<le> D" by auto
  have ih: "?K \<union> covered_ho xs = {e..<D} \<and> ?K \<inter> covered_ho xs = {}"
    using Cons.prems x by (intro Cons.IH) auto
  have K: "?K \<subseteq> {e..<D}" and S: "covered_ho xs \<subseteq> {e..<D}" using ih by blast+
  have eq: "covered_ho (gaps l (x # xs) @ tail_segment (walk_end l (x # xs)) D)
            = {l..<s} \<union> ?K"
    unfolding x walk_end_Cons gaps_Cons_app
    by (auto simp: covered_ho_simps tail_segment_def)
  have u: "({l..<s} \<union> ?K) \<union> ({s..<e} \<union> covered_ho xs) = {l..<s} \<union> {s..<e} \<union> (?K \<union> covered_ho xs)"
    by blast
  have A: "({l..<s} \<union> ?K) \<union> ({s..<e} \<union> covered_ho xs) = {l..<D}"
    unfolding u using ih b by auto
  have B: "({l..<s} \<union> ?K) \<inter> ({s..<e} \<union> covered_ho xs) = {}"
    using K S ih b by (auto simp: subset_iff)
  have c: "covered_ho (x # xs) = {s..<e} \<union> covered_ho xs"
    by (simp add: x covered_ho_simps)
  from A B show ?case
    unfolding eq c by (rule conjI)
qed

lemma closed_cover:
  "sorted_wrt (\<lambda>a b. snd a \<le> fst b) xs \<Longrightarrow>
   \<forall>x\<in>set xs. l \<le> fst x \<and> fst x \<le> snd x \<and> snd x \<le> D \<Longrightarrow> l \<le> D \<Longrightarrow>
   covered (gaps l xs @ tail_segment (walk_end l xs) D) \<union> covered xs \<union> {l} = {l..D}"
proof (induction xs arbitrary: l)
  case Nil
  then show ?case by (auto simp: covered_simps walk_end_def tail_segment_def)
next
  case (Cons x xs)
  obtain s e where x: "x = (s, e)" by (cases x)
  let ?K = "covered (gaps e xs @ tail_segment (walk_end e xs) D)"
  from Cons.prems x have b: "l \<le> s" "s \<le> e" "e \<le> D" by auto
  have ih: "?K \<union> covered xs \<union> {e} = {e..D}"
    using Cons.prems x by (intro Cons.IH) auto
  have eq: "covered (gaps l (x # xs) @ tail_segment (walk_end l (x # xs)) D)
            = (if l < s then {l..s} else {}) \<union> ?K"
    unfolding x walk_end_Cons gaps_Cons_app
    by (auto simp: covered_simps tail_segment_def)
  have u: "((if l < s then {l..s} else {}) \<union> ?K) \<union> ({s..e} \<union> covered xs) \<union> {l}
           = (if l < s then {l..s} else {}) \<union> {l} \<union> {s..e} \<union> (?K \<union> covered xs \<union> {e})"
    using b by auto
  have A: "((if l < s then {l..s} else {}) \<union> ?K) \<union> ({s..e} \<union> covered xs) \<union> {l} = {l..D}"
    unfolding u ih using b by auto
  have c: "covered (x # xs) = {s..e} \<union> covered xs"
    by (simp add: x covered_simps)
  from A show ?case
    unfolding eq c .
qed

lemma chain_sorted:
  "sorted_wrt (\<lambda>a b. snd a \<le> fst b) xs \<Longrightarrow> \<forall>x\<in>set xs. fst x \<le> snd x \<Longrightarrow> sorted (xs :: segment list)"
  by (induction xs) (fastforce simp: less_eq_prod_def)+

text \<open>
  C4 (as amended). For silence intervals with \<open>0 \<le> start \<le> end \<le> D\<close>, each ending no
  later than the next one starts, the keep segments of \<open>_invert_segments\<close> and the silence
  intervals, as closed intervals, cover exactly \<open>[0, D]\<close>; as half-open intervals
  \<open>[start, end)\<close> they cover exactly \<open>[0, D)\<close> and no time point lies in both. (As closed
  intervals a keep segment and the silence interval next to it share their common endpoint.)
\<close>

theorem invert_round_trip:
  assumes ch: "sorted_wrt (\<lambda>a b. snd a \<le> fst b) sil"
    and bd: "\<forall>x\<in>set sil. 0 \<le> fst x \<and> fst x \<le> snd x \<and> snd x \<le> D"
  shows "covered (invert_segments sil D) \<union> covered sil = {0..D}
       \<and> covered_ho (invert_segments sil D) \<union> covered_ho sil = {0..<D}
       \<and> covered_ho (invert_segments sil D) \<inter> covered_ho sil = {}"
proof (cases "sil = []")
  case True
  then show ?thesis by (simp add: invert_segments_def covered_simps covered_ho_simps)
next
  case False
  have srt: "sort sil = sil"
    using chain_sorted [OF ch] bd by (intro sorted_sort_id) auto
  have inv: "invert_segments sil D = gaps 0 sil @ tail_segment (walk_end 0 sil) D"
    using False by (simp add: invert_segments_gaps srt tail_segment_def)
  from False bd have D: "0 \<le> D" by (cases sil) (auto intro: order_trans)
  have zero: "0 \<in> covered (invert_segments sil D) \<union> covered sil"
  proof (cases sil)
    case Nil with False show ?thesis by simp
  next
    case (Cons x xs)
    obtain s e where x: "x = (s, e)" by (cases x)
    with Cons bd have "0 \<le> s" "s \<le> e" by auto
    then show ?thesis using inv unfolding Cons x
      by (cases "0 < s") (auto simp: covered_simps)
  qed
  have "covered (invert_segments sil D) \<union> covered sil \<union> {0} = {0..D}"
    unfolding inv using closed_cover [OF ch bd D] .
  with zero have "covered (invert_segments sil D) \<union> covered sil = {0..D}" by blast
  then show ?thesis
    unfolding inv using ho_partition [OF ch bd D] by simp
qed

theorem invert_round_trip_witness:
  "covered (invert_segments [(10, 15), (40, 42)] 60) \<union> covered [(10, 15), (40, 42)] = {0..60}
   \<and> covered_ho (invert_segments [(10, 15), (40, 42)] 60) \<union> covered_ho [(10, 15), (40, 42)] = {0..<60}
   \<and> covered_ho (invert_segments [(10, 15), (40, 42)] 60) \<inter> covered_ho [(10, 15), (40, 42)] = {}"
  by (rule invert_round_trip) simp_all

text \<open>
  On the specification's own example the instant 10 is covered by the keep segment
  \<open>(0, 10)\<close> and by the silence interval \<open>(10, 15)\<close>.
\<close>

theorem invert_round_trip_counterexample:
  "invert_segments [(10, 15), (40, 42)] 60 = [(0, 10), (15, 40), (42, 60)]
   \<and> 10 \<in> covered (invert_segments [(10, 15), (40, 42)] 60) \<inter> covered [(10, 15), (40, 42)]"
  by (simp add: invert_segments_def invert_step_def covered_def)

text \<open>
  C1 (as amended). After the walk has processed a silence interval \<open>(s, e)\<close> the tracked
  \<open>last_end\<close> is \<open>e\<close>; that is \<open>max(previous last_end, e)\<close> when \<open>e\<close> is not below the
  previous \<open>last_end\<close>. For every list of silence intervals with \<open>start \<le> end\<close>, nested and
  overlapping ones included, the keep segments are ascending and pairwise non-overlapping.
\<close>

theorem invert_walk:
  "fst (invert_step (s, e) (last_end, keep)) = e
   \<and> (last_end \<le> e \<longrightarrow> fst (invert_step (s, e) (last_end, keep)) = max last_end e)
   \<and> (well_formed sil \<longrightarrow> keep_invariant (invert_segments sil D))"
  using invert_keep [of sil D] by (simp add: invert_step_def)

theorem invert_walk_witness:
  "fst (invert_step (15, 40) (10, [])) = max 10 40
   \<and> well_formed [(0, 10), (2, 5), (7, 8)]
   \<and> invert_segments [(0, 10), (2, 5), (7, 8)] 20 = [(5, 7), (8, 20)]
   \<and> keep_invariant (invert_segments [(0, 10), (2, 5), (7, 8)] 20)"
proof -
  have wf: "well_formed [(0, 10), (2, 5), (7, 8)]" by (simp add: well_formed_def)
  have "invert_segments [(0, 10), (2, 5), (7, 8)] 20 = [(5, 7), (8, 20)]"
    by (simp add: invert_segments_def invert_step_def)
  with wf invert_walk [of 15 40 10 "[]" "[(0, 10), (2, 5), (7, 8)]" 20]
  show ?thesis by simp
qed

text \<open>
  On a nested interval \<open>last_end\<close> moves backward: from 10 to 5 at \<open>(2, 5)\<close>, so that the
  silence between 5 and 10 is kept.
\<close>

theorem invert_walk_counterexample:
  "fst (invert_step (2, 5) (10, [])) \<noteq> max 10 5
   \<and> invert_segments [(0, 10), (2, 5)] 20 = [(5, 20)]"
  by (simp add: invert_segments_def invert_step_def)

subsection \<open>Duration zero\<close>

lemma gaps_none: "\<forall>x\<in>set xs. fst x \<le> 0 \<and> 0 \<le> snd x \<Longrightarrow> 0 \<le> l \<Longrightarrow> gaps l xs = []"
  by (induction xs arbitrary: l) auto

lemma walk_end_nonneg: "xs \<noteq> [] \<Longrightarrow> \<forall>x\<in>set xs. 0 \<le> snd x \<Longrightarrow> 0 \<le> walk_end l xs"
  by (simp add: walk_end_def)

text \<open>
  C6 (as amended). When the duration source reports 0, silence-only mode returns the one
  zero-length segment \<open>(0, 0)\<close> for an empty silence list, and the empty list for a
  non-empty silence list whose intervals all start at 0 or before and end at 0 or after;
  the other two modes do not read the duration.
\<close>

theorem zero_duration:
  assumes "get_duration vi = 0"
  shows "detect_keep_segments ''ffmpeg'' [] sp vi = [(0, 0)]
       \<and> (sil \<noteq> [] \<and> (\<forall>x\<in>set sil. fst x \<le> 0 \<and> 0 \<le> snd x)
            \<longrightarrow> detect_keep_segments ''ffmpeg'' sil sp vi = [])
       \<and> detect_keep_segments ''whisper'' sil sp vi = sp
       \<and> detect_keep_segments ''hybrid'' sil sp vi = merge_segments sp sil"
proof -
  { assume ne: "sil \<noteq> []" and b: "\<forall>x\<in>set sil. fst x \<le> 0 \<and> 0 \<le> snd x"
    have "gaps 0 (sort sil) = []" using b by (intro gaps_none) auto
    moreover have sne: "sort sil \<noteq> []"
      using ne by (metis length_sort length_0_conv)
    moreover have "0 \<le> walk_end 0 (sort sil)"
      using sne b by (intro walk_end_nonneg) auto
    ultimately have "invert_segments sil 0 = []"
      using ne by (simp add: invert_segments_gaps) }
  then show ?thesis
    using assms by (auto simp: detect_keep_segments_def invert_segments_def)
qed

theorem zero_duration_witness:
  "get_duration None = 0
   \<and> detect_keep_segments ''ffmpeg'' [] [] None = [(0, 0)]
   \<and> detect_keep_segments ''ffmpeg'' [(0, 0)] [] None = []
   \<and> detect_keep_segments ''whisper'' [(0, 0)] [(1, 2)] None = [(1, 2)]"
  using zero_duration [of None "[]" "[(0, 0)]"] zero_duration [of None "[(1, 2)]" "[(0, 0)]"]
  by (simp add: get_duration_def)

text \<open>With no silence and duration 0 the keep list is not empty.\<close>

theorem zero_duration_counterexample:
  "get_duration None = 0 \<and> detect_keep_segments ''ffmpeg'' [] [] None \<noteq> []
   \<and> invert_segments [] 0 = [(0, 0)]"
  by (simp add: get_duration_def detect_keep_segments_def invert_segments_def)

section \<open>Gap-bridging and the speech-only mode\<close>

lemma fold_speech_step:
  "(case fold (speech_step g) xs (Some (cs, ce), segs) of
      (current, segments) \<Rightarrow> (case current of None \<Rightarrow> segments | Some c \<Rightarrow> segments @ [c]))
   = segs @ bridge g cs ce xs"
  by (induction xs arbitrary: cs ce segs) (auto simp: speech_step_def)

lemma get_speech_segments_bridge:
  "get_speech_segments (Some raw) g =
     (case raw of [] \<Rightarrow> [] | (s, e) # xs \<Rightarrow> bridge g s e xs)"
proof (cases raw)
  case Nil
  then show ?thesis by (simp add: get_speech_segments_def)
next
  case (Cons x xs)
  obtain s e where x: "x = (s, e)" by (cases x)
  have "fold (speech_step g) raw (None, []) = fold (speech_step g) xs (Some (s, e), [])"
    by (simp add: Cons x speech_step_def)
  then show ?thesis
    using fold_speech_step [of g xs s e "[]"] by (simp add: get_speech_segments_def Cons x)
qed

lemma bridge_hd: "bridge g cs ce xs \<noteq> [] \<and> fst (hd (bridge g cs ce xs)) = cs"
  by (induction xs arbitrary: cs ce) (auto split: if_splits)

lemma bridge_gaps: "successively (\<lambda>a b. fst b - snd a > g) (bridge g cs ce xs)"
proof (induction xs arbitrary: cs ce)
  case Nil
  then show ?case by simp
next
  case (Cons x xs)
  obtain s e where x: "x = (s, e)" by (cases x)
  show ?case
    using Cons.IH [of cs e] Cons.IH [of s e] bridge_hd [of g s e xs]
    by (auto simp: x successively_Cons)
qed

lemma bridge_keep:
  "0 \<le> g \<Longrightarrow> cs \<le> ce \<Longrightarrow> sorted (map fst xs) \<Longrightarrow> well_formed xs \<Longrightarrow>
   \<forall>x\<in>set xs. cs \<le> fst x \<Longrightarrow>
   keep_invariant (bridge g cs ce xs) \<and> (\<forall>k\<in>set (bridge g cs ce xs). cs \<le> fst k)"
proof (induction xs arbitrary: cs ce)
  case Nil
  then show ?case by (simp add: keep_invariant_def)
next
  case (Cons x xs)
  obtain s e where x: "x = (s, e)" by (cases x)
  from Cons.prems x have b: "cs \<le> s" "s \<le> e" "\<forall>y\<in>set xs. s \<le> fst y"
    "sorted (map fst xs)" "well_formed xs"
    by (auto simp: well_formed_def)
  show ?case
  proof (cases "s - ce \<le> g")
    case True
    have "keep_invariant (bridge g cs e xs) \<and> (\<forall>k\<in>set (bridge g cs e xs). cs \<le> fst k)"
      using Cons.prems b by (intro Cons.IH) auto
    with True show ?thesis by (simp add: x)
  next
    case False
    have ih: "keep_invariant (bridge g s e xs) \<and> (\<forall>k\<in>set (bridge g s e xs). s \<le> fst k)"
      using Cons.prems b by (intro Cons.IH) auto
    with False Cons.prems(1,2) b show ?thesis
      by (auto simp: x keep_invariant_def)
  qed
qed

lemma bridge_contains:
  "sorted (map fst xs) \<Longrightarrow> sorted (map snd xs) \<Longrightarrow>
   \<forall>x\<in>set xs. cs \<le> fst x \<and> ce \<le> snd x \<Longrightarrow>
   (\<exists>k\<in>set (bridge g cs ce xs). fst k = cs \<and> ce \<le> snd k)
   \<and> (\<forall>r\<in>set xs. \<exists>k\<in>set (bridge g cs ce xs). contains k r)"
proof (induction xs arbitrary: cs ce)
  case Nil
  then show ?case by simp
next
  case (Cons x xs)
  obtain s e where x: "x = (s, e)" by (cases x)
  from Cons.prems x have b: "cs \<le> s" "ce \<le> e" "sorted (map fst xs)" "sorted (map snd xs)"
    "\<forall>y\<in>set xs. s \<le> fst y \<and> e \<le> snd y"
    by auto
  show ?case
  proof (cases "s - ce \<le> g")
    case True
    have ih: "(\<exists>k\<in>set (bridge g cs e xs). fst k = cs \<and> e \<le> snd k)
       \<and> (\<forall>r\<in>set xs. \<exists>k\<in>set (bridge g cs e xs). contains k r)"
      using Cons.prems b by (intro Cons.IH) auto
    have eq: "bridge g cs ce (x # xs) = bridge g cs e xs" using True by (simp add: x)
    from ih obtain k where k: "k \<in> set (bridge g cs e xs)" "fst k = cs" "e \<le> snd k"
      by blast
    have "contains k x" using k b by (simp add: x contains_def)
    with k ih b show ?thesis unfolding eq by (auto intro: order_trans)
  next
    case False
    have ih: "(\<exists>k\<in>set (bridge g s e xs). fst k = s \<and> e \<le> snd k)
       \<and> (\<forall>r\<in>set xs. \<exists>k\<in>set (bridge g s e xs). contains k r)"
      using b by (intro Cons.IH) auto
    have eq: "bridge g cs ce (x # xs) = (cs, ce) # bridge g s e xs"
      using False by (simp add: x)
    from ih obtain k where k: "k \<in> set (bridge g s e xs)" "fst k = s" "e \<le> snd k"
      by blast
    have "contains k x" using k by (simp add: x contains_def)
    with k ih show ?thesis unfolding eq by auto
  qed
qed

lemma adapter_keep:
  assumes "0 \<le> g" "sorted (map fst raw)" "well_formed raw"
  shows "keep_invariant (get_speech_segments (Some raw) g)"
proof (cases raw)
  case Nil
  then show ?thesis by (simp add: get_speech_segments_bridge keep_invariant_def)
next
  case (Cons x xs)
  obtain s e where x: "x = (s, e)" by (cases x)
  have "keep_invariant (bridge g s e xs) \<and> (\<forall>k\<in>set (bridge g s e xs). s \<le> fst k)"
    using assms by (intro bridge_keep) (auto simp: Cons x well_formed_def)
  then show ?thesis by (simp add: get_speech_segments_bridge Cons x)
qed

text \<open>
  C3 (as amended). In speech-only mode the reconciler returns the speech adapter's list as
  it is, with no re-sort and no validation. That list is ascending by start and pairwise
  non-overlapping when the raw transcription segments have \<open>start \<le> end\<close> and come
  ordered by start, and \<open>min_gap \<ge> 0\<close>.
\<close>

theorem speech_only_passthrough:
  "detect_keep_segments ''whisper'' sil sp vi = sp
   \<and> (0 \<le> g \<and> sorted (map fst raw) \<and> well_formed raw \<longrightarrow>
        keep_invariant (detect_keep_segments ''whisper'' sil
          (detect_speech_from_video True (Some (Some raw)) g) vi))"
  using adapter_keep [of g raw]
  by (simp add: detect_keep_segments_def detect_speech_from_video_def)

theorem speech_only_passthrough_witness:
  "detect_keep_segments ''whisper'' [] [(5, 6), (0, 1)] None = [(5, 6), (0, 1)]
   \<and> sorted (map fst ([(0, 1), (2, 4), (10, 12)] :: segment list))
   \<and> well_formed [(0, 1), (2, 4), (10, 12)]
   \<and> detect_speech_from_video True (Some (Some [(0, 1), (2, 4), (10, 12)])) 2 = [(0, 4), (10, 12)]
   \<and> keep_invariant (detect_keep_segments ''whisper'' []
        (detect_speech_from_video True (Some (Some [(0, 1), (2, 4), (10, 12)])) 2) None)"
proof -
  have h: "(0::real) \<le> 2 \<and> sorted (map fst ([(0, 1), (2, 4), (10, 12)] :: segment list))
           \<and> well_formed [(0, 1), (2, 4), (10, 12)]"
    by (simp add: well_formed_def)
  have v: "detect_speech_from_video True (Some (Some [(0, 1), (2, 4), (10, 12)])) 2 = [(0, 4), (10, 12)]"
    by (simp add: detect_speech_from_video_def get_speech_segments_def speech_step_def)
  from h v speech_only_passthrough [of "[]" "[(5, 6), (0, 1)]" None 2 "[(0, 1), (2, 4), (10, 12)]"]
  show ?thesis by simp
qed

text \<open>
  Raw segments out of order: the second is bridged into the first (its gap is negative),
  the third opens a new interval, and the returned list is not ascending.
\<close>

theorem speech_only_passthrough_counterexample:
  "detect_keep_segments ''whisper'' []
     (detect_speech_from_video True (Some (Some [(10, 12), (0, 1), (5, 6)])) 2) None
     = [(10, 1), (5, 6)]
   \<and> \<not> keep_invariant [(10, 1), (5, 6)]"
  by (simp add: detect_keep_segments_def detect_speech_from_video_def get_speech_segments_def
        speech_step_def keep_invariant_def)

text \<open>
  C9 (as amended). A raw segment that starts at most \<open>min_gap\<close> after the current interval's
  end is merged into it. In the returned list every interval starts more than \<open>min_gap\<close>
  after the interval before it ends, for every raw list. When the raw segments come with
  ascending starts and ascending ends, every raw segment is contained in some returned
  interval.
\<close>

theorem gap_bridging:
  "(s - ce \<le> g \<longrightarrow> speech_step g (s, e) (Some (cs, ce), segs) = (Some (cs, e), segs))
   \<and> successively (\<lambda>a b. fst b - snd a > g) (get_speech_segments (Some raw) g)
   \<and> (sorted (map fst raw) \<and> sorted (map snd raw) \<longrightarrow>
        (\<forall>r\<in>set raw. \<exists>k\<in>set (get_speech_segments (Some raw) g). contains k r))"
proof -
  have 1: "successively (\<lambda>a b. fst b - snd a > g) (get_speech_segments (Some raw) g)"
    by (cases raw) (auto simp: get_speech_segments_bridge bridge_gaps)
  have 2: "\<forall>r\<in>set raw. \<exists>k\<in>set (get_speech_segments (Some raw) g). contains k r"
    if srt: "sorted (map fst raw)" "sorted (map snd raw)"
  proof (cases raw)
    case Nil
    then show ?thesis by simp
  next
    case (Cons x xs)
    obtain a b where x: "x = (a, b)" by (cases x)
    have "(\<exists>k\<in>set (bridge g a b xs). fst k = a \<and> b \<le> snd k)
          \<and> (\<forall>r\<in>set xs. \<exists>k\<in>set (bridge g a b xs). contains k r)"
      using srt by (intro bridge_contains) (auto simp: Cons x)
    then show ?thesis
      by (auto simp: get_speech_segments_bridge Cons x contains_def)
  qed
  from 1 2 show ?thesis by (simp add: speech_step_def)
qed

theorem gap_bridging_witness:
  "speech_step 2 (2, 4) (Some (0, 1), []) = (Some (0, 4), [])
   \<and> get_speech_segments (Some [(0, 1), (2, 4), (10, 12)]) 2 = [(0, 4), (10, 12)]
   \<and> successively (\<lambda>a b. fst b - snd a > 2) (get_speech_segments (Some [(0, 1), (2, 4), (10, 12)]) 2)
   \<and> (\<exists>k\<in>set (get_speech_segments (Some [(0, 1), (2, 4), (10, 12)]) 2). contains k (2, 4))"
proof -
  have v: "get_speech_segments (Some [(0, 1), (2, 4), (10, 12)]) 2 = [(0, 4), (10, 12)]"
    by (simp add: get_speech_segments_def speech_step_def)
  from v gap_bridging [of 2 1 2 4 0 "[]" "[(0, 1), (2, 4), (10, 12)]"]
  show ?thesis by simp
qed

text \<open>
  A raw segment nested in the one before it pulls the current end back: \<open>(0, 10)\<close> is
  contained in no returned interval.
\<close>

theorem gap_bridging_counterexample:
  "get_speech_segments (Some [(0, 10), (1, 2)]) 2 = [(0, 2)]
   \<and> \<not> contains (0, 2) (0, 10)"
  by (simp add: get_speech_segments_def speech_step_def contains_def)

section \<open>The timestamp report\<close>

lemma fold_report_step:
  "(case fold report_step xs (n, l, rows) of
      (segment_num, last_end, rows') \<Rightarrow>
        if last_end < D then rows' @ [cut_row segment_num last_end D] else rows')
   = rows @ timeline n l xs D"
  by (induction xs arbitrary: n l rows)
     (auto simp: report_step_def cut_row_def clip_row_def)

lemma report_timeline:
  "generate_timestamp_report segments D = timeline 1 0 (sort segments) D"
  using fold_report_step [of D "sort segments" 1 0 "[]", unfolded cut_row_def]
  by (simp add: generate_timestamp_report_def)

lemma timeline_contiguous:
  "sorted_wrt (\<lambda>a b. snd a \<le> fst b) xs \<Longrightarrow>
   \<forall>x\<in>set xs. l \<le> fst x \<and> fst x \<le> snd x \<and> snd x \<le> D \<Longrightarrow> l \<le> D \<Longrightarrow>
   contiguous l D (timeline n l xs D)"
proof (induction xs arbitrary: n l)
  case Nil
  then show ?case by (auto simp: cut_row_def)
next
  case (Cons x xs)
  obtain s e where x: "x = (s, e)" by (cases x)
  from Cons.prems x have b: "l \<le> s" "s \<le> e" "e \<le> D" by auto
  have ih: "contiguous e D (timeline m e xs D)" for m
    using Cons.prems x by (intro Cons.IH) auto
  show ?case using b ih by (auto simp: x cut_row_def clip_row_def)
qed

lemma timeline_no_adjacent_removed:
  "no_adjacent_removed (timeline n l xs D)"
  unfolding no_adjacent_removed_def
proof (induction xs arbitrary: n l)
  case Nil
  then show ?case by simp
next
  case (Cons x xs)
  obtain s e where x: "x = (s, e)" by (cases x)
  show ?case using Cons.IH
    by (auto simp: x successively_Cons cut_row_def clip_row_def)
qed

lemma timeline_alternating:
  "sorted_wrt (\<lambda>a b. snd a < fst b) xs \<Longrightarrow> \<forall>x\<in>set xs. l < fst x \<Longrightarrow>
   successively (\<lambda>r r'. row_action r \<noteq> row_action r') (timeline n l xs D)
   \<and> (timeline n l xs D \<noteq> [] \<longrightarrow> row_action (hd (timeline n l xs D)) = REMOVED)"
proof (induction xs arbitrary: n l)
  case Nil
  then show ?case by (simp add: cut_row_def)
next
  case (Cons x xs)
  obtain s e where x: "x = (s, e)" by (cases x)
  have ih: "successively (\<lambda>r r'. row_action r \<noteq> row_action r') (timeline m e xs D)
       \<and> (timeline m e xs D \<noteq> [] \<longrightarrow> row_action (hd (timeline m e xs D)) = REMOVED)" for m
    using Cons.prems x by (intro Cons.IH) auto
  show ?case using Cons.prems ih
    by (auto simp: x successively_Cons cut_row_def clip_row_def)
qed

lemma timeline_kept:
  "kept_durations (timeline n l xs D) = sum_list (map (\<lambda>(s, e). e - s) xs)"
  by (induction xs arbitrary: n l) (auto simp: kept_durations_def cut_row_def clip_row_def)

lemma timeline_durations:
  "\<forall>r\<in>set (timeline n l xs D). row_duration r = row_end r - row_start r"
  by (induction xs arbitrary: n l) (auto simp: cut_row_def clip_row_def split: if_splits)

text \<open>
  The report prints each time through \<open>_format_duration\<close>, which drops the fraction of a
  second.
\<close>

lemma format_duration_floor:
  "format_duration (7323 + 1 / 2) = (2, 2, 3) \<and> format_duration (3 / 2) = (0, 0, 1)"
  by (simp add: format_duration_def)

text \<open>
  C5 (as amended). For keep segments with \<open>0 \<le> start \<le> end \<le> D\<close>, each ending no later
  than the next one starts, the rows of the report partition \<open>[0, D]\<close>: the first starts at
  0, each starts where the one before ends, the last ends at \<open>D\<close>. Each row's duration is
  its end minus its start, no two consecutive rows are \<open>REMOVED\<close>, the rows alternate
  between \<open>REMOVED\<close> and \<open>KEPT\<close> when every segment ends strictly before the next one
  starts, and the durations of the \<open>KEPT\<close> rows add up to the durations of the keep
  segments. The times are the numbers handed to \<open>_format_duration\<close>.
\<close>

theorem report_coverage:
  assumes ch: "sorted_wrt (\<lambda>a b. snd a \<le> fst b) keep"
    and bd: "\<forall>x\<in>set keep. 0 \<le> fst x \<and> fst x \<le> snd x \<and> snd x \<le> D"
    and D: "0 \<le> D"
  shows "contiguous 0 D (generate_timestamp_report keep D)
       \<and> (\<forall>r\<in>set (generate_timestamp_report keep D). row_duration r = row_end r - row_start r)
       \<and> no_adjacent_removed (generate_timestamp_report keep D)
       \<and> (sorted_wrt (\<lambda>a b. snd a < fst b) keep \<longrightarrow> alternating (generate_timestamp_report keep D))
       \<and> kept_durations (generate_timestamp_report keep D) = sum_list (map (\<lambda>(s, e). e - s) keep)"
proof -
  have srt: "sort keep = keep"
    using chain_sorted [OF ch] bd by (intro sorted_sort_id) auto
  have rep: "generate_timestamp_report keep D = timeline 1 0 keep D"
    by (simp add: report_timeline srt)
  have alt: "alternating (timeline 1 0 keep D)" if st: "sorted_wrt (\<lambda>a b. snd a < fst b) keep"
  proof (cases keep)
    case Nil
    then show ?thesis by (simp add: alternating_def)
  next
    case (Cons x xs)
    obtain s e where x: "x = (s, e)" by (cases x)
    have "successively (\<lambda>r r'. row_action r \<noteq> row_action r') (timeline m e xs D)
       \<and> (timeline m e xs D \<noteq> [] \<longrightarrow> row_action (hd (timeline m e xs D)) = REMOVED)" for m
      using st by (intro timeline_alternating) (auto simp: Cons x)
    then show ?thesis
      by (auto simp: alternating_def Cons x successively_Cons cut_row_def clip_row_def)
  qed
  show ?thesis
    unfolding rep
    using timeline_contiguous [OF ch bd D, of 1] timeline_durations [of 1 0 keep D]
      timeline_no_adjacent_removed [of 1 0 keep D] alt timeline_kept [of 1 0 keep D]
    by blast
qed

theorem report_coverage_witness:
  "generate_timestamp_report [(0, 10), (15, 40)] 60 =
     [clip_row 1 0 10, cut_row 2 10 15, clip_row 3 15 40, cut_row 4 40 60]
   \<and> contiguous 0 60 (generate_timestamp_report [(0, 10), (15, 40)] 60)
   \<and> no_adjacent_removed (generate_timestamp_report [(0, 10), (15, 40)] 60)
   \<and> alternating (generate_timestamp_report [(0, 10), (15, 40)] 60)
   \<and> kept_durations (generate_timestamp_report [(0, 10), (15, 40)] 60) = 35"
proof -
  have v: "generate_timestamp_report [(0, 10), (15, 40)] 60 =
     [clip_row 1 0 10, cut_row 2 10 15, clip_row 3 15 40, cut_row 4 40 60]"
    by (simp add: generate_timestamp_report_def report_step_def cut_row_def clip_row_def)
  have "contiguous 0 60 (generate_timestamp_report [(0, 10), (15, 40)] 60)
       \<and> (\<forall>r\<in>set (generate_timestamp_report [(0, 10), (15, 40)] 60). row_duration r = row_end r - row_start r)
       \<and> no_adjacent_removed (generate_timestamp_report [(0, 10), (15, 40)] 60)
       \<and> (sorted_wrt (\<lambda>a b. snd a < fst b) [(0, 10), (15, 40 :: real)] \<longrightarrow> alternating (generate_timestamp_report [(0, 10), (15, 40)] 60))
       \<and> kept_durations (generate_timestamp_report [(0, 10), (15, 40)] 60) = sum_list (map (\<lambda>(s, e). e - s) [(0, 10), (15, 40)])"
    by (rule report_coverage) simp_all
  with v show ?thesis by simp
qed

text \<open>
  Two touching keep segments give two \<open>KEPT\<close> rows in a row; a keep segment that ends
  after \<open>D\<close> gives rows that end after \<open>D\<close>.
\<close>

theorem report_coverage_counterexample:
  "generate_timestamp_report [(0, 10), (10, 20)] 20 = [clip_row 1 0 10, clip_row 2 10 20]
   \<and> \<not> alternating (generate_timestamp_report [(0, 10), (10, 20)] 20)
   \<and> generate_timestamp_report [(0, 10)] 5 = [clip_row 1 0 10]
   \<and> \<not> contiguous 0 5 (generate_timestamp_report [(0, 10)] 5)"
  by (simp add: generate_timestamp_report_def report_step_def cut_row_def clip_row_def
        alternating_def)

section \<open>The cut planner and the run\<close>

lemma fold_snoc_map: "fold (\<lambda>x acc. acc @ [f x]) xs acc = acc @ map f xs"
  by (induction xs arbitrary: acc) auto

lemma filter_parts_map: "filter_parts keep p = map (filter_part p) (enumerate 0 keep)"
  by (simp add: filter_parts_def fold_snoc_map)

lemma fold_export_step:
  "snd (fold (export_step p run) xs st) = snd st @ map (clip_command p) xs"
  by (induction xs arbitrary: st) (auto simp: export_step_def Let_def split: prod.splits)

lemma export_clips_map:
  "snd (export_clips segs p run) = map (clip_command p) (enumerate 1 segs)"
  by (simp add: export_clips_def fold_export_step)

lemma filter_part_times:
  "map (\<lambda>t. (trim_start t, trim_end t)) (map (filter_part p) (enumerate n keep))
     = map (\<lambda>(s, e). (max 0 (s - p), e + p)) keep"
  by (induction keep arbitrary: n) (auto simp: filter_part_def Let_def)

lemma filter_part_index:
  "map trim_index (map (filter_part p) (enumerate n keep)) = [n..<n + length keep]"
proof -
  have "trim_index (filter_part p x) = fst x" for x
    by (simp add: filter_part_def Let_def split: prod.splits)
  then have "trim_index \<circ> filter_part p = fst"
    by (simp add: fun_eq_iff)
  then show ?thesis by simp
qed

lemma clip_command_times:
  "map (\<lambda>c. (clip_ss c, clip_t c)) (map (clip_command p) (enumerate n keep))
     = map (\<lambda>(s, e). (max 0 (s - p), (e + p) - max 0 (s - p))) keep"
  by (induction keep arbitrary: n) (auto simp: clip_command_def Let_def)

lemma clip_command_number:
  "map clip_number (map (clip_command p) (enumerate n keep)) = [n..<n + length keep]"
proof -
  have "clip_number (clip_command p x) = fst x" for x
    by (simp add: clip_command_def Let_def split: prod.splits)
  then have "clip_number \<circ> clip_command p = fst"
    by (simp add: fun_eq_iff)
  then show ?thesis by simp
qed

text \<open>
  C7. For every keep-segment list and every padding \<open>p\<close> the cut planner builds one trim
  per segment, in the original order and numbered from 0, with padded start
  \<open>max 0 (start - p)\<close>, which is never negative, and padded end \<open>end + p\<close>, with no clamp
  against the duration; for a non-empty list \<open>cut_video\<close> hands exactly this one filter graph
  to the transcoder. \<open>export_clips\<close> builds one command per segment, numbered from 1, with
  the same padded start and the duration \<open>(end + p) - padded_start\<close>.
\<close>

theorem cut_planner:
  "map (\<lambda>t. (trim_start t, trim_end t)) (filter_parts keep p)
     = map (\<lambda>(s, e). (max 0 (s - p), e + p)) keep
   \<and> map trim_index (filter_parts keep p) = [0..<length keep]
   \<and> (\<forall>t\<in>set (filter_parts keep p). 0 \<le> trim_start t)
   \<and> (keep \<noteq> [] \<longrightarrow> snd (cut_video keep p run) = [filter_parts keep p])
   \<and> map (\<lambda>c. (clip_ss c, clip_t c)) (snd (export_clips keep p rc))
     = map (\<lambda>(s, e). (max 0 (s - p), (e + p) - max 0 (s - p))) keep
   \<and> map clip_number (snd (export_clips keep p rc)) = [1..<Suc (length keep)]"
proof -
  have 3: "\<forall>t\<in>set (filter_parts keep p). 0 \<le> trim_start t"
    by (auto simp: filter_parts_map filter_part_def Let_def)
  have 4: "keep \<noteq> [] \<longrightarrow> snd (cut_video keep p run) = [filter_parts keep p]"
    by (simp add: cut_video_def Let_def split: option.splits)
  from 3 4 filter_part_times [of p 0 keep] filter_part_index [of p 0 keep]
    clip_command_times [of p 1 keep] clip_command_number [of p 1 keep]
  show ?thesis
    by (simp add: filter_parts_map export_clips_map)
qed

theorem cut_planner_witness:
  "filter_parts [(1 / 4, 10), (15, 40)] (1 / 2) =
     [\<lparr>trim_index = 0, trim_start = 0, trim_end = 21 / 2\<rparr>,
      \<lparr>trim_index = 1, trim_start = 29 / 2, trim_end = 81 / 2\<rparr>]
   \<and> snd (cut_video [(1 / 4, 10), (15, 40)] (1 / 2) (\<lambda>c. Some 0))
       = [filter_parts [(1 / 4, 10), (15, 40)] (1 / 2)]
   \<and> map (\<lambda>c. (clip_ss c, clip_t c)) (snd (export_clips [(1 / 4, 10), (15, 40)] (1 / 2) (\<lambda>c. True)))
       = [(0, 21 / 2), (29 / 2, 26)]
   \<and> map clip_number (snd (export_clips [(1 / 4, 10), (15, 40)] (1 / 2) (\<lambda>c. True))) = [1, 2]"
proof -
  have v: "filter_parts [(1 / 4, 10), (15, 40)] (1 / 2) =
     [\<lparr>trim_index = 0, trim_start = 0, trim_end = 21 / 2\<rparr>,
      \<lparr>trim_index = 1, trim_start = 29 / 2, trim_end = 81 / 2\<rparr>]"
    by (simp add: filter_parts_def filter_part_def Let_def)
  have u: "[1..<Suc (length [(1 / 4, 10), (15, 40 :: real)])] = [1, 2]"
    by (simp add: upt_conv_Cons)
  from v u cut_planner [of "[(1 / 4, 10), (15, 40)]" "1 / 2" "\<lambda>c. Some 0" "\<lambda>c. True"]
  show ?thesis by simp
qed

text \<open>
  C8. On the empty keep-segment list \<open>cut_video\<close> returns failure and hands nothing to the
  transcoder, and \<open>export_clips\<close> runs no command. When the reconciler returns the empty
  list, \<open>process_video\<close> runs no cut and no clip command, creates no file and does not
  succeed; unless it was cancelled, its error is \<open>No segments to keep\<close>.
\<close>

theorem empty_keep_list:
  "cut_video [] p run = (False, [])
   \<and> export_clips [] p rc = ([], [])
   \<and> (detect_keep_segments (processing_mode cfg) (silence_found w) (speech_found w) (video_info w) = []
        \<longrightarrow> snd (process_video cfg w) = ([], [])
          \<and> \<not> success (fst (process_video cfg w))
          \<and> output_files (fst (process_video cfg w)) = []
          \<and> (\<not> cancelled_after_detection w
               \<longrightarrow> error (fst (process_video cfg w)) = Some ''No segments to keep''))"
  by (simp add: cut_video_def export_clips_def process_video_def Let_def)

theorem empty_keep_list_witness:
  "detect_keep_segments (processing_mode demo_config) (silence_found (demo_world [(0, 60)] 60))
     (speech_found (demo_world [(0, 60)] 60)) (video_info (demo_world [(0, 60)] 60)) = []
   \<and> snd (process_video demo_config (demo_world [(0, 60)] 60)) = ([], [])
   \<and> \<not> success (fst (process_video demo_config (demo_world [(0, 60)] 60)))
   \<and> error (fst (process_video demo_config (demo_world [(0, 60)] 60))) = Some ''No segments to keep''"
proof -
  have k: "detect_keep_segments (processing_mode demo_config) (silence_found (demo_world [(0, 60)] 60))
     (speech_found (demo_world [(0, 60)] 60)) (video_info (demo_world [(0, 60)] 60)) = []"
    by (simp add: demo_config_def demo_world_def detect_keep_segments_def get_duration_def
          invert_segments_def invert_step_def)
  have c: "\<not> cancelled_after_detection (demo_world [(0, 60)] 60)"
    by (simp add: demo_world_def)
  from k c empty_keep_list [of "1 / 2" "\<lambda>c. Some 0" "\<lambda>c. True" demo_config "demo_world [(0, 60)] 60"]
  show ?thesis by simp
qed

text \<open>
  C10 (as amended). \<open>_count_removed_segments\<close> returns the number of keep segments minus
  one, whatever the duration and wherever the segments lie, and 0 for the empty list. That
  is the \<open>segments_removed\<close> entry of the result of a run that is not cancelled before the
  statistics are computed; a run cancelled after the detection returns with the entry at
  0, whatever the keep segments are.
\<close>

theorem segments_removed_count:
  "count_removed_segments keep D = (if keep = [] then 0 else int (length keep) - 1)
   \<and> (\<not> cancelled_after_detection w \<longrightarrow>
        segments_removed (fst (process_video cfg w)) =
          (let keep_segments = detect_keep_segments (processing_mode cfg) (silence_found w)
                                 (speech_found w) (video_info w)
           in if keep_segments = [] then 0 else int (length keep_segments) - 1))
   \<and> (cancelled_after_detection w \<longrightarrow> segments_removed (fst (process_video cfg w)) = 0)"
  by (simp add: count_removed_segments_def process_video_def Let_def)

theorem segments_removed_count_witness:
  "count_removed_segments [(5, 10)] 60 = 0
   \<and> detect_keep_segments ''ffmpeg'' [(0, 5), (10, 20), (30, 60)] [] (Some 60) = [(5, 10), (20, 30)]
   \<and> segments_removed (fst (process_video demo_config (demo_world [(0, 5), (10, 20), (30, 60)] 60))) = 1
   \<and> segments_removed (fst (process_video demo_config
         ((demo_world [] 60)\<lparr>cancelled_after_detection := True\<rparr>))) = 0
   \<and> length (filter (\<lambda>r. row_action r = REMOVED)
         (generate_timestamp_report [(5, 10), (20, 30)] 60)) = 3"
proof -
  have k: "detect_keep_segments ''ffmpeg'' [(0, 5), (10, 20), (30, 60)] [] (Some 60) = [(5, 10), (20, 30)]"
    by (simp add: detect_keep_segments_def get_duration_def invert_segments_def invert_step_def)
  have c: "\<not> cancelled_after_detection (demo_world [(0, 5), (10, 20), (30, 60)] 60)"
    by (simp add: demo_world_def)
  have c': "cancelled_after_detection ((demo_world [] 60)\<lparr>cancelled_after_detection := True\<rparr>)"
    by simp
  have m: "processing_mode demo_config = ''ffmpeg''" by (simp add: demo_config_def)
  have w: "silence_found (demo_world [(0, 5), (10, 20), (30, 60)] 60) = [(0, 5), (10, 20), (30, 60)]"
    "speech_found (demo_world [(0, 5), (10, 20), (30, 60)] 60) = []"
    "video_info (demo_world [(0, 5), (10, 20), (30, 60)] 60) = Some 60"
    by (simp_all add: demo_world_def)
  from k c c'
    segments_removed_count [of "[(5, 10)]" 60 "demo_world [(0, 5), (10, 20), (30, 60)] 60" demo_config]
    segments_removed_count [of "[(5, 10)]" 60
      "(demo_world [] 60)\<lparr>cancelled_after_detection := True\<rparr>" demo_config]
  show ?thesis
    by (simp add: m w generate_timestamp_report_def report_step_def)
qed

text \<open>
  A run with the two keep segments \<open>(5, 10)\<close> and \<open>(20, 30)\<close> that is cancelled after the
  detection: its result has \<open>segments_removed\<close> 0, not 1.
\<close>

theorem segments_removed_count_counterexample:
  "detect_keep_segments ''ffmpeg'' [(0, 5), (10, 20), (30, 60)] [] (Some 60) = [(5, 10), (20, 30)]
   \<and> segments_removed (fst (process_video demo_config
         ((demo_world [(0, 5), (10, 20), (30, 60)] 60)\<lparr>cancelled_after_detection := True\<rparr>))) = 0
   \<and> int (length [(5, 10), (20, 30 :: real)]) - 1 = 1"
  by (simp add: detect_keep_segments_def get_duration_def invert_segments_def invert_step_def
        process_video_def Let_def)

end
